theory Spec2Isabelle
  imports
    Main
    "HOL-Library.Multiset"
    "HOL-Library.Sublist"
    "HOL-Library.Char_ord"
    "HOL-Library.List_Lexorder"
begin

section \<open>Strings\<close>

text \<open>
  A Python \<open>str\<close> is modelled as a \<open>string\<close>: a list of characters with code points
  0 to 255 (the Latin-1 range of Unicode). Comparison of two strings is Python's:
  lexicographic by code point, a proper prefix being smaller. The built-in methods
  \<open>str.strip\<close>, \<open>str.lower\<close>, the operator \<open>in\<close> and the pattern \<open>\d\<close> are given
  their Python meaning on this range.
\<close>

definition isspace :: "char \<Rightarrow> bool" where
  \<comment> \<open>the characters \<open>str.strip()\<close> removes: U+0009..U+000D, U+001C..U+0020, U+0085, U+00A0\<close>
  "isspace c =
     (let n = (of_char c :: nat)
      in (9 \<le> n \<and> n \<le> 13) \<or> (28 \<le> n \<and> n \<le> 32) \<or> n = 133 \<or> n = 160)"

definition strip :: "string \<Rightarrow> string" where
  "strip s = rev (dropWhile isspace (rev (dropWhile isspace s)))"

definition lower_char :: "char \<Rightarrow> char" where
  \<comment> \<open>A..Z and the Latin-1 capitals U+00C0..U+00DE (without the sign U+00D7) move up by 32\<close>
  "lower_char c =
     (let n = (of_char c :: nat)
      in if (65 \<le> n \<and> n \<le> 90) \<or> (192 \<le> n \<and> n \<le> 222 \<and> n \<noteq> 215)
         then char_of (n + 32) else c)"

definition lower :: "string \<Rightarrow> string" where
  "lower s = map lower_char s"

definition isdigit :: "char \<Rightarrow> bool" where
  \<comment> \<open>what \<open>\d\<close> matches\<close>
  "isdigit c = (let n = (of_char c :: nat) in 48 \<le> n \<and> n \<le> 57)"

definition match_digits :: "string \<Rightarrow> bool" where
  \<comment> \<open>\<open>re.match(r'^\d+$', s)\<close> finds a match: one or more digits up to the end of the string,
      where \<open>$\<close> also matches just before a newline that ends the string\<close>
  "match_digits s =
     (let body = (if s \<noteq> [] \<and> last s = CHR 0x0A then butlast s else s)
      in body \<noteq> [] \<and> list_all isdigit body)"

section \<open>Person and Mahasiswa\<close>

datatype error =
    ValueError string
  | Exception string

record mahasiswa =
  id_mhs :: int
  nama :: string
  nim :: string

text \<open>
  Objects are modelled as values: a list of records stands for a Python list of distinct
  objects. The class variable \<open>Mahasiswa._total_mahasiswa\<close> is passed in and returned.
\<close>

definition Person_init :: "string \<Rightarrow> string" where
  \<comment> \<open>\<open>self._nama = nama\<close>: the private attribute is written, the setter is not called\<close>
  "Person_init nama_arg = nama_arg"

definition Mahasiswa_init :: "string \<Rightarrow> string \<Rightarrow> int \<Rightarrow> mahasiswa \<times> int" where
  "Mahasiswa_init nama_arg nim_arg counter =
     (\<lparr>id_mhs = counter + 1, nama = Person_init nama_arg, nim = nim_arg\<rparr>, counter + 1)"

definition set_nama :: "string \<Rightarrow> mahasiswa \<Rightarrow> error + mahasiswa" where
  "set_nama v m =
     (if strip v = [] then Inl (ValueError ''Nama tidak boleh kosong'')
      else Inr (m\<lparr>nama := v\<rparr>))"

definition set_nim :: "string \<Rightarrow> mahasiswa \<Rightarrow> error + mahasiswa" where
  "set_nim v m =
     (if \<not> match_digits v then Inl (ValueError ''NIM harus berupa angka'')
      else Inr (m\<lparr>nim := v\<rparr>))"

text \<open>
  The dictionary \<open>to_dict\<close> builds has the keys \<open>id\<close>, \<open>nama\<close> and \<open>nim\<close>, an integer and
  two strings; it is a record of these three entries.
\<close>

record mahasiswa_dict =
  d_id :: int
  d_nama :: string
  d_nim :: string

definition to_dict :: "mahasiswa \<Rightarrow> mahasiswa_dict" where
  "to_dict m = \<lparr>d_id = id_mhs m, d_nama = nama m, d_nim = nim m\<rparr>"

definition from_dict :: "mahasiswa_dict \<Rightarrow> int \<Rightarrow> mahasiswa \<times> int" where
  "from_dict d counter =
     (let (mhs, counter') = Mahasiswa_init (d_nama d) (d_nim d) counter
      in (mhs\<lparr>id_mhs := d_id d\<rparr>, counter'))"

section \<open>DataManager\<close>

text \<open>
  The file at \<open>_file_path\<close> is absent, or it cannot be read as JSON (opening it or
  \<open>json.load\<close> raises), or it holds a JSON array of dictionaries as \<open>to_dict\<close> writes
  them; \<open>json.dump\<close> followed by \<open>json.load\<close> gives the dumped value back. Whether the
  file can be opened for writing is a flag of the state.
\<close>

datatype disk_file =
    Absent
  | Unreadable
  | Content "mahasiswa_dict list"

record world =
  total_mahasiswa :: int
  data :: "mahasiswa list"
  current_index :: int
  json_file :: disk_file
  writable :: bool

text \<open>A method returns its value or the exception it raised, and the state it left.\<close>

type_synonym 'a result = "(error + 'a) \<times> world"

definition valid_index :: "int \<Rightarrow> world \<Rightarrow> bool" where
  \<comment> \<open>\<open>0 <= index < len(self._data)\<close>\<close>
  "valid_index index w = (0 \<le> index \<and> index < int (length (data w)))"

definition simpan_ke_file :: "world \<Rightarrow> bool result" where
  "simpan_ke_file w =
     (if writable w then (Inr True, w\<lparr>json_file := Content (map to_dict (data w))\<rparr>)
      else (Inl (Exception ''Gagal menyimpan ke file''), w))"

definition discard :: "'a result \<Rightarrow> unit result" where
  \<comment> \<open>a call whose value is not used\<close>
  "discard r = (case r of (Inl e, w) \<Rightarrow> (Inl e, w) | (Inr _, w) \<Rightarrow> (Inr (), w))"

definition tambah :: "mahasiswa \<Rightarrow> world \<Rightarrow> unit result" where
  "tambah m w = discard (simpan_ke_file (w\<lparr>data := data w @ [m]\<rparr>))"

definition get_by_index :: "int \<Rightarrow> world \<Rightarrow> mahasiswa option" where
  "get_by_index index w = (if valid_index index w then Some (data w ! nat index) else None)"

definition get_all :: "world \<Rightarrow> mahasiswa list" where
  "get_all w = data w"

definition get_count :: "world \<Rightarrow> int" where
  "get_count w = int (length (data w))"

definition edit :: "int \<Rightarrow> string \<Rightarrow> string \<Rightarrow> world \<Rightarrow> unit result" where
  "edit index nama_arg nim_arg w =
     (if valid_index index w then
        (case set_nama nama_arg (data w ! nat index) of
           Inl e \<Rightarrow> (Inl e, w)
         | Inr m1 \<Rightarrow>
            (let w1 = w\<lparr>data := (data w)[nat index := m1]\<rparr>
             in case set_nim nim_arg (data w1 ! nat index) of
                  Inl e \<Rightarrow> (Inl e, w1)
                | Inr m2 \<Rightarrow> discard (simpan_ke_file (w1\<lparr>data := (data w1)[nat index := m2]\<rparr>))))
      else (Inr (), w))"

definition del_at :: "nat \<Rightarrow> 'a list \<Rightarrow> 'a list" where
  \<comment> \<open>\<open>del xs[i]\<close> for an index in range\<close>
  "del_at i xs = take i xs @ drop (Suc i) xs"

definition hapus :: "int \<Rightarrow> world \<Rightarrow> unit result" where
  "hapus index w =
     (if valid_index index w
      then discard (simpan_ke_file (w\<lparr>data := del_at (nat index) (data w)\<rparr>))
      else (Inr (), w))"

fun from_dict_all :: "mahasiswa_dict list \<Rightarrow> int \<Rightarrow> mahasiswa list \<times> int" where
  \<comment> \<open>\<open>[Mahasiswa.from_dict(item) for item in data]\<close>, each construction counting\<close>
  "from_dict_all [] counter = ([], counter)"
| "from_dict_all (d # ds) counter =
     (let (m, t1) = from_dict d counter;
          (ms, t2) = from_dict_all ds t1
      in (m # ms, t2))"

definition max_default :: "int list \<Rightarrow> int \<Rightarrow> int" where
  \<comment> \<open>\<open>max(xs, default=d)\<close>\<close>
  "max_default xs d = (case xs of [] \<Rightarrow> d | x # rest \<Rightarrow> fold max rest x)"

definition baca_dari_file :: "world \<Rightarrow> bool result" where
  "baca_dari_file w =
     (case json_file w of
        Absent \<Rightarrow> (Inr True, w)
      | Unreadable \<Rightarrow> (Inl (Exception ''Gagal membaca file''), w)
      | Content ds \<Rightarrow>
          (let (ms, t) = from_dict_all ds (total_mahasiswa w);
               w1 = w\<lparr>data := ms, total_mahasiswa := t\<rparr>
           in (Inr True, w1\<lparr>total_mahasiswa := max_default (map id_mhs (data w1)) 0\<rparr>)))"

section \<open>SearchAlgorithms\<close>

definition key_by :: "string \<Rightarrow> mahasiswa \<Rightarrow> string" where
  \<comment> \<open>\<open>m.nama.lower() if by == 'nama' else m.nim\<close>\<close>
  "key_by by_arg m = (if by_arg = ''nama'' then lower (nama m) else nim m)"

definition linear_search :: "mahasiswa list \<Rightarrow> string \<Rightarrow> string \<Rightarrow> mahasiswa list" where
  \<comment> \<open>\<open>a in b\<close> on strings holds when \<open>a\<close> is a contiguous part of \<open>b\<close>\<close>
  "linear_search data_arg keyword by_arg =
     (let keyword_lower = lower keyword
      in fold (\<lambda>mhs results.
                 let v = key_by by_arg mhs
                 in if sublist keyword_lower (lower v) then results @ [mhs] else results)
              data_arg [])"

function binary_search_while ::
  "mahasiswa list \<Rightarrow> string \<Rightarrow> int \<Rightarrow> int \<Rightarrow> mahasiswa option" where
  "binary_search_while sorted_data nim_arg low high =
     (if low \<le> high then
        (let mid = (low + high) div 2;
             mid_nim = nim (sorted_data ! nat mid)
         in if mid_nim = nim_arg then Some (sorted_data ! nat mid)
            else if mid_nim < nim_arg then binary_search_while sorted_data nim_arg (mid + 1) high
            else binary_search_while sorted_data nim_arg low (mid - 1))
      else None)"
  by pat_completeness auto
termination
  by (relation "measure (\<lambda>(sorted_data, nim_arg, low, high). nat (high - low + 1))") auto

definition binary_search :: "mahasiswa list \<Rightarrow> string \<Rightarrow> mahasiswa option" where
  \<comment> \<open>\<open>sorted(data, key=...)\<close> is Python's stable sort by the key\<close>
  "binary_search data_arg nim_arg =
     (let sorted_data = sort_key nim data_arg
      in binary_search_while sorted_data nim_arg 0 (int (length sorted_data) - 1))"

definition sequential_search :: "mahasiswa list \<Rightarrow> string \<Rightarrow> mahasiswa list" where
  "sequential_search data_arg keyword = linear_search data_arg keyword ''nama''"

section \<open>SortAlgorithms\<close>

text \<open>
  A \<open>for\<close> loop over \<open>range(a, b)\<close> is a \<open>fold\<close> of its body over \<open>[a..<b]\<close>; a \<open>while\<close>
  loop is a recursive function of the variables it changes. The simultaneous
  assignment \<open>xs[i], xs[j] = xs[j], xs[i]\<close> reads both elements and then writes
  \<open>xs[i]\<close>, then \<open>xs[j]\<close>.
\<close>

definition bubble_step :: "string \<Rightarrow> nat \<Rightarrow> mahasiswa list \<Rightarrow> mahasiswa list" where
  "bubble_step by_arg j sorted_data =
     (let a = key_by by_arg (sorted_data ! j);
          b = key_by by_arg (sorted_data ! (j + 1))
      in if a > b then sorted_data[j := sorted_data ! (j + 1), j + 1 := sorted_data ! j]
         else sorted_data)"

definition bubble_sort :: "mahasiswa list \<Rightarrow> string \<Rightarrow> mahasiswa list" where
  "bubble_sort data_arg by_arg =
     (let n = length data_arg
      in fold (\<lambda>i sorted_data. fold (bubble_step by_arg) [0..<n - i - 1] sorted_data)
              [0..<n] data_arg)"

definition selection_min :: "string \<Rightarrow> mahasiswa list \<Rightarrow> nat \<Rightarrow> nat \<Rightarrow> nat" where
  \<comment> \<open>the inner loop: \<open>min_idx\<close> after \<open>j\<close> has run over \<open>range(i + 1, n)\<close>\<close>
  "selection_min by_arg sorted_data i n =
     fold (\<lambda>j min_idx.
             let a = key_by by_arg (sorted_data ! min_idx);
                 b = key_by by_arg (sorted_data ! j)
             in if a > b then j else min_idx)
          [i + 1..<n] i"

definition selection_step :: "string \<Rightarrow> nat \<Rightarrow> nat \<Rightarrow> mahasiswa list \<Rightarrow> mahasiswa list" where
  "selection_step by_arg n i sorted_data =
     (let min_idx = selection_min by_arg sorted_data i n
      in sorted_data[i := sorted_data ! min_idx, min_idx := sorted_data ! i])"

definition selection_sort :: "mahasiswa list \<Rightarrow> string \<Rightarrow> mahasiswa list" where
  "selection_sort data_arg by_arg =
     (let n = length data_arg
      in fold (selection_step by_arg n) [0..<n] data_arg)"

function insertion_while ::
  "string \<Rightarrow> mahasiswa \<Rightarrow> int \<Rightarrow> mahasiswa list \<Rightarrow> int \<times> mahasiswa list" where
  "insertion_while by_arg key j sorted_data =
     (if j \<ge> 0 then
        (let a = key_by by_arg (sorted_data ! nat j);
             b = key_by by_arg key
         in if a > b
            then insertion_while by_arg key (j - 1)
                   (sorted_data[nat (j + 1) := sorted_data ! nat j])
            else (j, sorted_data))
      else (j, sorted_data))"
  by pat_completeness auto
termination
  by (relation "measure (\<lambda>(by_arg, key, j, sorted_data). nat (j + 1))") auto

definition insertion_step :: "string \<Rightarrow> nat \<Rightarrow> mahasiswa list \<Rightarrow> mahasiswa list" where
  "insertion_step by_arg i sorted_data =
     (let key = sorted_data ! i;
          (j, shifted) = insertion_while by_arg key (int i - 1) sorted_data
      in shifted[nat (j + 1) := key])"

definition insertion_sort :: "mahasiswa list \<Rightarrow> string \<Rightarrow> mahasiswa list" where
  "insertion_sort data_arg by_arg =
     fold (insertion_step by_arg) [1..<length data_arg] data_arg"

function merge_while ::
  "string \<Rightarrow> mahasiswa list \<Rightarrow> mahasiswa list \<Rightarrow> nat \<Rightarrow> nat \<Rightarrow> mahasiswa list
     \<Rightarrow> nat \<times> nat \<times> mahasiswa list" where
  "merge_while by_arg left right i j result =
     (if i < length left \<and> j < length right then
        (let a = key_by by_arg (left ! i);
             b = key_by by_arg (right ! j)
         in if a \<le> b then merge_while by_arg left right (i + 1) j (result @ [left ! i])
            else merge_while by_arg left right i (j + 1) (result @ [right ! j]))
      else (i, j, result))"
  by pat_completeness auto
termination
  by (relation "measure (\<lambda>(by_arg, left, right, i, j, result).
        (length left - i) + (length right - j))") auto

definition merge_lists :: "mahasiswa list \<Rightarrow> mahasiswa list \<Rightarrow> string \<Rightarrow> mahasiswa list" where
  \<comment> \<open>the helper \<open>_merge\<close>\<close>
  "merge_lists left right by_arg =
     (let (i, j, result) = merge_while by_arg left right 0 0 []
      in result @ drop i left @ drop j right)"

function merge_sort :: "mahasiswa list \<Rightarrow> string \<Rightarrow> mahasiswa list" where
  "merge_sort data_arg by_arg =
     (if length data_arg \<le> 1 then data_arg
      else merge_lists (merge_sort (take (length data_arg div 2) data_arg) by_arg)
                       (merge_sort (drop (length data_arg div 2) data_arg) by_arg) by_arg)"
  by pat_completeness auto
termination
  by (relation "measure (\<lambda>(data_arg, by_arg). length data_arg)") auto

text \<open>
  The inner loop of \<open>shell_sort\<close> does not end for every \<open>gap\<close> (with \<open>gap = 0\<close> it can
  repeat one state for ever), so it is a partial function: \<open>None\<close> stands for a loop that
  does not return, and so it is for the loops around it.
\<close>

partial_function (option) shell_while ::
  "string \<Rightarrow> nat \<Rightarrow> mahasiswa \<Rightarrow> nat \<Rightarrow> mahasiswa list \<Rightarrow> (nat \<times> mahasiswa list) option" where
  "shell_while by_arg gap temp j sorted_data =
     (if j \<ge> gap then
        (if key_by by_arg (sorted_data ! (j - gap)) > key_by by_arg temp
         then shell_while by_arg gap temp (j - gap) (sorted_data[j := sorted_data ! (j - gap)])
         else Some (j, sorted_data))
      else Some (j, sorted_data))"

definition shell_step :: "string \<Rightarrow> nat \<Rightarrow> nat \<Rightarrow> mahasiswa list \<Rightarrow> mahasiswa list option" where
  "shell_step by_arg gap i sorted_data =
     (let temp = sorted_data ! i
      in case shell_while by_arg gap temp i sorted_data of
           None \<Rightarrow> None
         | Some (j, shifted) \<Rightarrow> Some (shifted[j := temp]))"

definition shell_for :: "string \<Rightarrow> nat \<Rightarrow> nat \<Rightarrow> mahasiswa list \<Rightarrow> mahasiswa list option" where
  \<comment> \<open>\<open>for i in range(gap, n)\<close>\<close>
  "shell_for by_arg gap n sorted_data =
     fold (\<lambda>i r. case r of None \<Rightarrow> None | Some xs \<Rightarrow> shell_step by_arg gap i xs)
          [gap..<n] (Some sorted_data)"

function shell_gaps :: "string \<Rightarrow> nat \<Rightarrow> nat \<Rightarrow> mahasiswa list \<Rightarrow> mahasiswa list option" where
  \<comment> \<open>\<open>while gap > 0\<close>\<close>
  "shell_gaps by_arg n gap sorted_data =
     (if gap > 0 then
        (case shell_for by_arg gap n sorted_data of
           None \<Rightarrow> None
         | Some xs \<Rightarrow> shell_gaps by_arg n (gap div 2) xs)
      else Some sorted_data)"
  by pat_completeness auto
termination
  by (relation "measure (\<lambda>(by_arg, n, gap, sorted_data). gap)") auto

definition shell_sort :: "mahasiswa list \<Rightarrow> string \<Rightarrow> mahasiswa list option" where
  "shell_sort data_arg by_arg =
     (let n = length data_arg
      in shell_gaps by_arg n (n div 2) data_arg)"

text \<open>What \<open>_merge\<close> returns once its loop stands at \<open>i\<close>, \<open>j\<close> and \<open>result\<close>.\<close>

definition merge_out :: "string \<Rightarrow> mahasiswa list \<Rightarrow> mahasiswa list \<Rightarrow> nat \<Rightarrow> nat
    \<Rightarrow> mahasiswa list \<Rightarrow> mahasiswa list" where
  "merge_out by_arg left right i j result =
     (case merge_while by_arg left right i j result of
        (i', j', result') \<Rightarrow> result' @ drop i' left @ drop j' right)"

text \<open>
  The invariant of the outer loop of \<open>selection_sort\<close> before iteration \<open>i\<close>: the list is
  a rearrangement of the input, and every element in front of \<open>i\<close> is at most every
  element that follows it.
\<close>

definition selection_inv :: "string \<Rightarrow> mahasiswa list \<Rightarrow> nat \<Rightarrow> mahasiswa list \<Rightarrow> bool" where
  "selection_inv by_arg data_arg i ys =
     (length ys = length data_arg \<and> mset ys = mset data_arg
      \<and> (\<forall>a b. a < i \<and> a \<le> b \<and> b < length data_arg \<longrightarrow>
            key_by by_arg (ys ! a) \<le> key_by by_arg (ys ! b)))"

definition records_with_key :: "string \<Rightarrow> string \<Rightarrow> mahasiswa list \<Rightarrow> mahasiswa list" where
  \<comment> \<open>the records of a list whose key is \<open>k\<close>, in the order of the list\<close>
  "records_with_key by_arg k xs = filter (\<lambda>m. key_by by_arg m = k) xs"

text \<open>The equations of the loops are unfolded by hand, one iteration at a time.\<close>

declare binary_search_while.simps [simp del]
declare insertion_while.simps [simp del]
declare merge_while.simps [simp del]
declare merge_sort.simps [simp del]
declare shell_gaps.simps [simp del]

section \<open>Store operations\<close>

lemma from_dict_all_fst:
  "fst (from_dict_all ds t) = map (\<lambda>d. \<lparr>id_mhs = d_id d, nama = d_nama d, nim = d_nim d\<rparr>) ds"
  by (induction ds arbitrary: t)
     (simp_all add: from_dict_def Mahasiswa_init_def Person_init_def split_beta Let_def)

lemma from_dict_to_dict:
  "fst (from_dict_all (map to_dict ms) t) = ms"
  unfolding from_dict_all_fst by (induction ms) (simp_all add: to_dict_def)

lemma fold_max_Max:
  "fold max xs (x::int) = Max (insert x (set xs))"
proof (induction xs arbitrary: x)
  case Nil
  show ?case by simp
next
  case (Cons y ys)
  have "Max (insert (max y x) (set ys)) = Max (insert x (insert y (set ys)))"
    by (cases "set ys = {}") (simp_all add: max.commute max.left_commute max.assoc)
  with Cons show ?case by simp
qed

lemma max_default_Max:
  "max_default xs d = (if xs = [] then d else Max (set xs))"
  by (cases xs) (simp_all add: max_default_def fold_max_Max)

text \<open>
  C7. \<open>hapus\<close> with an index in range deletes the element at that position: the elements
  before it stay, every later element moves down by one, the length drops by one (so on
  three records \<open>hapus 0\<close> followed by \<open>get_by_index 0\<close> gives the record that was at
  index 1). With an index out of range, negative ones included, it returns normally and
  the whole state is as before.
\<close>

theorem C7_hapus:
  "(valid_index index w \<longrightarrow>
      data (snd (hapus index w)) = take (nat index) (data w) @ drop (Suc (nat index)) (data w)
    \<and> length (data (snd (hapus index w))) = length (data w) - 1
    \<and> (\<forall>k. k < nat index \<longrightarrow> data (snd (hapus index w)) ! k = data w ! k)
    \<and> (\<forall>k. nat index \<le> k \<and> Suc k < length (data w) \<longrightarrow>
          data (snd (hapus index w)) ! k = data w ! Suc k))
   \<and> (length (data w) = 3 \<longrightarrow> get_by_index 0 (snd (hapus 0 w)) = get_by_index 1 w)
   \<and> (\<not> valid_index index w \<longrightarrow> hapus index w = (Inr (), w))"
proof -
  have d: "data (snd (hapus i w)) = del_at (nat i) (data w)" if "valid_index i w" for i
    using that by (simp add: hapus_def simpan_ke_file_def discard_def)
  have a: "nat index < length (data w)" if "valid_index index w"
    using that by (auto simp: valid_index_def)
  have shape: "data (snd (hapus index w))
      = take (nat index) (data w) @ drop (Suc (nat index)) (data w)" if "valid_index index w"
    using d[OF that] by (simp add: del_at_def)
  have len: "length (data (snd (hapus index w))) = length (data w) - 1" if "valid_index index w"
    using a[OF that] by (simp add: shape[OF that] min_def)
  have before: "data (snd (hapus index w)) ! k = data w ! k"
    if "valid_index index w" "k < nat index" for k
    using a[OF that(1)] that(2) by (simp add: shape[OF that(1)] nth_append min_def)
  have after: "data (snd (hapus index w)) ! k = data w ! Suc k"
    if "valid_index index w" "nat index \<le> k" "Suc k < length (data w)" for k
    using a[OF that(1)] that(2,3) by (simp add: shape[OF that(1)] nth_append min_def)
  have three: "get_by_index 0 (snd (hapus 0 w)) = get_by_index 1 w" if l: "length (data w) = 3"
  proof -
    from l have v: "valid_index 0 w" by (simp add: valid_index_def)
    from l obtain x y z where "data w = [x, y, z]"
      by (auto simp: length_Suc_conv numeral_3_eq_3)
    then show ?thesis
      using d[OF v] by (simp add: get_by_index_def valid_index_def del_at_def)
  qed
  have noop: "hapus index w = (Inr (), w)" if "\<not> valid_index index w"
    using that by (simp add: hapus_def)
  show ?thesis
    using shape len before after three noop by blast
qed

theorem C7_hapus_witness:
  "valid_index 0 \<lparr>total_mahasiswa = 3,
      data = [\<lparr>id_mhs = 1, nama = ''Ana'', nim = ''111''\<rparr>,
              \<lparr>id_mhs = 2, nama = ''Budi'', nim = ''222''\<rparr>,
              \<lparr>id_mhs = 3, nama = ''Cici'', nim = ''333''\<rparr>],
      current_index = 0, json_file = Absent, writable = True\<rparr>
   \<and> get_by_index 0 (snd (hapus 0 \<lparr>total_mahasiswa = 3,
      data = [\<lparr>id_mhs = 1, nama = ''Ana'', nim = ''111''\<rparr>,
              \<lparr>id_mhs = 2, nama = ''Budi'', nim = ''222''\<rparr>,
              \<lparr>id_mhs = 3, nama = ''Cici'', nim = ''333''\<rparr>],
      current_index = 0, json_file = Absent, writable = True\<rparr>))
     = Some \<lparr>id_mhs = 2, nama = ''Budi'', nim = ''222''\<rparr>
   \<and> \<not> valid_index (- 1) \<lparr>total_mahasiswa = 0, data = [], current_index = 0,
        json_file = Absent, writable = True\<rparr>
   \<and> hapus (- 1) \<lparr>total_mahasiswa = 0, data = [], current_index = 0,
        json_file = Absent, writable = True\<rparr>
     = (Inr (), \<lparr>total_mahasiswa = 0, data = [], current_index = 0,
        json_file = Absent, writable = True\<rparr>)"
  using C7_hapus [of 0 "\<lparr>total_mahasiswa = 3,
      data = [\<lparr>id_mhs = 1, nama = ''Ana'', nim = ''111''\<rparr>,
              \<lparr>id_mhs = 2, nama = ''Budi'', nim = ''222''\<rparr>,
              \<lparr>id_mhs = 3, nama = ''Cici'', nim = ''333''\<rparr>],
      current_index = 0, json_file = Absent, writable = True\<rparr>"]
    C7_hapus [of "- 1" "\<lparr>total_mahasiswa = 0, data = [], current_index = 0,
        json_file = Absent, writable = True\<rparr>"]
  by (simp add: valid_index_def get_by_index_def)

text \<open>
  C9. \<open>tambah\<close> appends whatever record it is given: it makes no comparison with the
  records already stored. Adding two records with the same \<open>nim\<close> stores both, the count
  growing by one at each call, and the stored registration numbers are then no longer
  pairwise distinct.
\<close>

theorem C9_tambah_no_uniqueness_check:
  "nim m2 = nim m1 \<Longrightarrow>
     data (snd (tambah m1 w)) = data w @ [m1]
   \<and> get_count (snd (tambah m1 w)) = get_count w + 1
   \<and> data (snd (tambah m2 (snd (tambah m1 w)))) = data w @ [m1, m2]
   \<and> get_count (snd (tambah m2 (snd (tambah m1 w)))) = get_count w + 2
   \<and> \<not> distinct (map nim (data (snd (tambah m2 (snd (tambah m1 w))))))"
proof -
  assume same: "nim m2 = nim m1"
  have one: "data (snd (tambah m v)) = data v @ [m]" for m v
    by (simp add: tambah_def simpan_ke_file_def discard_def)
  have two: "data (snd (tambah m2 (snd (tambah m1 w)))) = data w @ [m1, m2]"
    by (simp add: one)
  show ?thesis
    using same by (simp add: two one get_count_def)
qed

theorem C9_tambah_no_uniqueness_check_witness:
  "nim \<lparr>id_mhs = 2, nama = ''Budi'', nim = ''123456789''\<rparr>
     = nim \<lparr>id_mhs = 1, nama = ''Ana'', nim = ''123456789''\<rparr>
   \<and> data (snd (tambah \<lparr>id_mhs = 2, nama = ''Budi'', nim = ''123456789''\<rparr>
        (snd (tambah \<lparr>id_mhs = 1, nama = ''Ana'', nim = ''123456789''\<rparr>
          \<lparr>total_mahasiswa = 2, data = [], current_index = 0,
           json_file = Absent, writable = True\<rparr>))))
     = [\<lparr>id_mhs = 1, nama = ''Ana'', nim = ''123456789''\<rparr>,
        \<lparr>id_mhs = 2, nama = ''Budi'', nim = ''123456789''\<rparr>]"
  using C9_tambah_no_uniqueness_check
    [of "\<lparr>id_mhs = 2, nama = ''Budi'', nim = ''123456789''\<rparr>"
        "\<lparr>id_mhs = 1, nama = ''Ana'', nim = ''123456789''\<rparr>"
        "\<lparr>total_mahasiswa = 2, data = [], current_index = 0,
          json_file = Absent, writable = True\<rparr>"]
  by simp

text \<open>
  C10. \<open>edit\<close> with an index in range, a name that is not empty after trimming and a
  registration number that \<open>^\d+$\<close> does not match raises the \<open>ValueError\<close> of the \<open>nim\<close>
  setter. The state it leaves has the new name in the record at that index, the old
  registration number, every other record as before, and the file untouched.
\<close>

theorem C10_edit_not_atomic:
  "valid_index index w \<Longrightarrow> strip nama_new \<noteq> [] \<Longrightarrow> \<not> match_digits nim_new \<Longrightarrow>
     fst (edit index nama_new nim_new w) = Inl (ValueError ''NIM harus berupa angka'')
   \<and> nama (data (snd (edit index nama_new nim_new w)) ! nat index) = nama_new
   \<and> nim (data (snd (edit index nama_new nim_new w)) ! nat index) = nim (data w ! nat index)
   \<and> data (snd (edit index nama_new nim_new w))
       = (data w)[nat index := (data w ! nat index)\<lparr>nama := nama_new\<rparr>]
   \<and> json_file (snd (edit index nama_new nim_new w)) = json_file w"
proof -
  assume v: "valid_index index w" and n: "strip nama_new \<noteq> []" and k: "\<not> match_digits nim_new"
  from v have r: "nat index < length (data w)"
    by (auto simp: valid_index_def)
  have e: "edit index nama_new nim_new w
      = (Inl (ValueError ''NIM harus berupa angka''),
         w\<lparr>data := (data w)[nat index := (data w ! nat index)\<lparr>nama := nama_new\<rparr>]\<rparr>)"
    using v n k by (simp add: edit_def set_nama_def set_nim_def Let_def)
  show ?thesis
    using r by (simp add: e)
qed

theorem C10_edit_not_atomic_witness:
  "valid_index 0 \<lparr>total_mahasiswa = 1,
       data = [\<lparr>id_mhs = 1, nama = ''Ada Lovelace'', nim = ''123456789''\<rparr>],
       current_index = 0, json_file = Content [], writable = True\<rparr>
   \<and> strip ''Ada L.'' \<noteq> [] \<and> \<not> match_digits ''12a''
   \<and> fst (edit 0 ''Ada L.'' ''12a'' \<lparr>total_mahasiswa = 1,
       data = [\<lparr>id_mhs = 1, nama = ''Ada Lovelace'', nim = ''123456789''\<rparr>],
       current_index = 0, json_file = Content [], writable = True\<rparr>)
     = Inl (ValueError ''NIM harus berupa angka'')
   \<and> data (snd (edit 0 ''Ada L.'' ''12a'' \<lparr>total_mahasiswa = 1,
       data = [\<lparr>id_mhs = 1, nama = ''Ada Lovelace'', nim = ''123456789''\<rparr>],
       current_index = 0, json_file = Content [], writable = True\<rparr>))
     = [\<lparr>id_mhs = 1, nama = ''Ada L.'', nim = ''123456789''\<rparr>]
   \<and> json_file (snd (edit 0 ''Ada L.'' ''12a'' \<lparr>total_mahasiswa = 1,
       data = [\<lparr>id_mhs = 1, nama = ''Ada Lovelace'', nim = ''123456789''\<rparr>],
       current_index = 0, json_file = Content [], writable = True\<rparr>))
     = Content []"
proof -
  let ?w = "\<lparr>total_mahasiswa = 1,
       data = [\<lparr>id_mhs = 1, nama = ''Ada Lovelace'', nim = ''123456789''\<rparr>],
       current_index = 0, json_file = Content [], writable = True\<rparr>"
  have v: "valid_index 0 ?w" by (simp add: valid_index_def)
  have n: "strip ''Ada L.'' \<noteq> []" by (simp add: strip_def isspace_def)
  have k: "\<not> match_digits ''12a''" by (simp add: match_digits_def isdigit_def)
  show ?thesis
    using v n k C10_edit_not_atomic [OF v n k] by simp
qed

text \<open>
  C3. Round trip. When \<open>simpan_ke_file\<close> succeeds on a store, \<open>baca_dari_file\<close> on any store
  that sees the file it wrote succeeds and holds a sequence equal to the saved one: the
  same ids, names and registration numbers, in the same order.
\<close>

theorem C3_persist_load_roundtrip:
  "simpan_ke_file w = (Inr b, w1) \<Longrightarrow> json_file w2 = json_file w1 \<Longrightarrow>
     fst (baca_dari_file w2) = Inr True
   \<and> data (snd (baca_dari_file w2)) = data w
   \<and> map id_mhs (data (snd (baca_dari_file w2))) = map id_mhs (data w)
   \<and> map nama (data (snd (baca_dari_file w2))) = map nama (data w)
   \<and> map nim (data (snd (baca_dari_file w2))) = map nim (data w)"
proof -
  assume s: "simpan_ke_file w = (Inr b, w1)" and f: "json_file w2 = json_file w1"
  from s have "json_file w1 = Content (map to_dict (data w))"
    by (auto simp: simpan_ke_file_def split: if_splits)
  with f have c: "json_file w2 = Content (map to_dict (data w))"
    by simp
  obtain ms t where r: "from_dict_all (map to_dict (data w)) (total_mahasiswa w2) = (ms, t)"
    by (cases "from_dict_all (map to_dict (data w)) (total_mahasiswa w2)")
  from r have ms: "ms = data w"
    using from_dict_to_dict [of "data w" "total_mahasiswa w2"] by simp
  have "fst (baca_dari_file w2) = Inr True" and "data (snd (baca_dari_file w2)) = data w"
    using c r ms by (simp_all add: baca_dari_file_def Let_def)
  then show ?thesis by simp
qed

theorem C3_persist_load_roundtrip_witness:
  "simpan_ke_file \<lparr>total_mahasiswa = 2,
       data = [\<lparr>id_mhs = 2, nama = ''Budi'', nim = ''222''\<rparr>,
               \<lparr>id_mhs = 1, nama = ''Ana'', nim = ''111''\<rparr>],
       current_index = 0, json_file = Absent, writable = True\<rparr>
     = (Inr True, \<lparr>total_mahasiswa = 2,
       data = [\<lparr>id_mhs = 2, nama = ''Budi'', nim = ''222''\<rparr>,
               \<lparr>id_mhs = 1, nama = ''Ana'', nim = ''111''\<rparr>],
       current_index = 0,
       json_file = Content [\<lparr>d_id = 2, d_nama = ''Budi'', d_nim = ''222''\<rparr>,
                            \<lparr>d_id = 1, d_nama = ''Ana'', d_nim = ''111''\<rparr>],
       writable = True\<rparr>)
   \<and> data (snd (baca_dari_file \<lparr>total_mahasiswa = 0, data = [], current_index = 0,
       json_file = Content [\<lparr>d_id = 2, d_nama = ''Budi'', d_nim = ''222''\<rparr>,
                            \<lparr>d_id = 1, d_nama = ''Ana'', d_nim = ''111''\<rparr>],
       writable = True\<rparr>))
     = [\<lparr>id_mhs = 2, nama = ''Budi'', nim = ''222''\<rparr>,
        \<lparr>id_mhs = 1, nama = ''Ana'', nim = ''111''\<rparr>]"
proof -
  let ?w = "\<lparr>total_mahasiswa = 2,
       data = [\<lparr>id_mhs = 2, nama = ''Budi'', nim = ''222''\<rparr>,
               \<lparr>id_mhs = 1, nama = ''Ana'', nim = ''111''\<rparr>],
       current_index = 0, json_file = Absent, writable = True\<rparr>"
  let ?c = "Content [\<lparr>d_id = 2, d_nama = ''Budi'', d_nim = ''222''\<rparr>,
                     \<lparr>d_id = 1, d_nama = ''Ana'', d_nim = ''111''\<rparr>]"
  let ?w2 = "\<lparr>total_mahasiswa = 0, data = [], current_index = 0,
       json_file = ?c, writable = True\<rparr>"
  have s: "simpan_ke_file ?w = (Inr True, ?w\<lparr>json_file := ?c\<rparr>)"
    by (simp add: simpan_ke_file_def to_dict_def)
  have f: "json_file ?w2 = json_file (?w\<lparr>json_file := ?c\<rparr>)"
    by simp
  show ?thesis
    using s C3_persist_load_roundtrip [OF s f] by simp
qed

text \<open>
  C6. After \<open>baca_dari_file\<close> has read a file holding records with the ids \<open>I\<close>, the counter
  is the largest id of \<open>I\<close> (0 for a file with no record), not one more. The next
  construction adds one before use: it takes the id \<open>max I + 1\<close>, and the one after it
  \<open>max I + 2\<close>; neither is an id the file held.
\<close>

theorem C6_load_counter:
  "json_file w = Content ds \<Longrightarrow>
     fst (baca_dari_file w) = Inr True
   \<and> total_mahasiswa (snd (baca_dari_file w))
       = (if ds = [] then 0 else Max (d_id ` set ds))
   \<and> id_mhs (fst (Mahasiswa_init a b (total_mahasiswa (snd (baca_dari_file w)))))
       = (if ds = [] then 0 else Max (d_id ` set ds)) + 1
   \<and> id_mhs (fst (Mahasiswa_init a b (total_mahasiswa (snd (baca_dari_file w)))))
       \<notin> d_id ` set ds
   \<and> id_mhs (fst (Mahasiswa_init a' b'
         (snd (Mahasiswa_init a b (total_mahasiswa (snd (baca_dari_file w)))))))
       = (if ds = [] then 0 else Max (d_id ` set ds)) + 2
   \<and> id_mhs (fst (Mahasiswa_init a' b'
         (snd (Mahasiswa_init a b (total_mahasiswa (snd (baca_dari_file w)))))))
       \<notin> d_id ` set ds"
proof -
  assume c: "json_file w = Content ds"
  let ?m = "if ds = [] then 0 else Max (d_id ` set ds)"
  obtain ms t where r: "from_dict_all ds (total_mahasiswa w) = (ms, t)"
    by (cases "from_dict_all ds (total_mahasiswa w)")
  from r have ms: "map id_mhs ms = map d_id ds"
    using from_dict_all_fst [of ds "total_mahasiswa w"] by (simp add: comp_def)
  have ok: "fst (baca_dari_file w) = Inr True"
    using c r by (simp add: baca_dari_file_def Let_def)
  from ms have "length ms = length ds"
    by (rule map_eq_imp_length_eq)
  then have e: "(ms = []) = (ds = [])"
    by auto
  from ms have "set (map id_mhs ms) = set (map d_id ds)"
    by simp
  then have st: "id_mhs ` set ms = d_id ` set ds"
    by simp
  have "total_mahasiswa (snd (baca_dari_file w)) = max_default (map id_mhs ms) 0"
    using c r by (simp add: baca_dari_file_def Let_def)
  also have "\<dots> = ?m"
    using e st by (simp add: max_default_Max)
  finally have tot: "total_mahasiswa (snd (baca_dari_file w)) = ?m" .
  have above: "i \<le> ?m" if "i \<in> d_id ` set ds" for i
  proof -
    from that have "ds \<noteq> []" by auto
    moreover have "i \<le> Max (d_id ` set ds)"
      using that by (intro Max_ge) simp_all
    ultimately show ?thesis by simp
  qed
  have fresh1: "?m + 1 \<notin> d_id ` set ds"
    using above [of "?m + 1"] by auto
  have fresh2: "?m + 2 \<notin> d_id ` set ds"
    using above [of "?m + 2"] by auto
  have id1: "id_mhs (fst (Mahasiswa_init a b (total_mahasiswa (snd (baca_dari_file w))))) = ?m + 1"
    by (simp add: tot Mahasiswa_init_def)
  have id2: "id_mhs (fst (Mahasiswa_init a' b'
         (snd (Mahasiswa_init a b (total_mahasiswa (snd (baca_dari_file w))))))) = ?m + 2"
    by (simp add: tot Mahasiswa_init_def)
  show ?thesis
    using ok tot fresh1 fresh2 unfolding id1 id2 by blast
qed

theorem C6_load_counter_witness:
  "json_file \<lparr>total_mahasiswa = 0, data = [], current_index = 0,
       json_file = Content [\<lparr>d_id = 1, d_nama = ''Ana'', d_nim = ''111''\<rparr>,
                            \<lparr>d_id = 3, d_nama = ''Cici'', d_nim = ''333''\<rparr>,
                            \<lparr>d_id = 2, d_nama = ''Budi'', d_nim = ''222''\<rparr>],
       writable = True\<rparr>
     = Content [\<lparr>d_id = 1, d_nama = ''Ana'', d_nim = ''111''\<rparr>,
                \<lparr>d_id = 3, d_nama = ''Cici'', d_nim = ''333''\<rparr>,
                \<lparr>d_id = 2, d_nama = ''Budi'', d_nim = ''222''\<rparr>]
   \<and> total_mahasiswa (snd (baca_dari_file \<lparr>total_mahasiswa = 0, data = [], current_index = 0,
       json_file = Content [\<lparr>d_id = 1, d_nama = ''Ana'', d_nim = ''111''\<rparr>,
                            \<lparr>d_id = 3, d_nama = ''Cici'', d_nim = ''333''\<rparr>,
                            \<lparr>d_id = 2, d_nama = ''Budi'', d_nim = ''222''\<rparr>],
       writable = True\<rparr>)) = 3
   \<and> id_mhs (fst (Mahasiswa_init ''Dedi'' ''444''
        (total_mahasiswa (snd (baca_dari_file \<lparr>total_mahasiswa = 0, data = [], current_index = 0,
       json_file = Content [\<lparr>d_id = 1, d_nama = ''Ana'', d_nim = ''111''\<rparr>,
                            \<lparr>d_id = 3, d_nama = ''Cici'', d_nim = ''333''\<rparr>,
                            \<lparr>d_id = 2, d_nama = ''Budi'', d_nim = ''222''\<rparr>],
       writable = True\<rparr>))))) = 4"
proof -
  let ?ds = "[\<lparr>d_id = 1, d_nama = ''Ana'', d_nim = ''111''\<rparr>,
              \<lparr>d_id = 3, d_nama = ''Cici'', d_nim = ''333''\<rparr>,
              \<lparr>d_id = 2, d_nama = ''Budi'', d_nim = ''222''\<rparr>]"
  let ?w = "\<lparr>total_mahasiswa = 0, data = [], current_index = 0,
       json_file = Content ?ds, writable = True\<rparr>"
  have c: "json_file ?w = Content ?ds" by simp
  note t = C6_load_counter [OF c, of "''Dedi''" "''444''" "''Dedi''" "''444''"]
  have m: "(if ?ds = [] then 0 else Max (d_id ` set ?ds)) = 3" by simp
  have "total_mahasiswa (snd (baca_dari_file ?w)) = 3"
    using t [THEN conjunct2, THEN conjunct1] unfolding m .
  moreover have "id_mhs (fst (Mahasiswa_init ''Dedi'' ''444''
      (total_mahasiswa (snd (baca_dari_file ?w))))) = 4"
    using t [THEN conjunct2, THEN conjunct2, THEN conjunct1] unfolding m by simp
  ultimately show ?thesis
    using c by blast
qed

text \<open>
  C4 (as amended). Constructing a record never fails. For every name and registration
  number, those with a name empty after trimming or a registration number that is not
  all digits included, the constructor returns a record that holds both as given, with
  the id \<open>counter + 1\<close>. The two checks are made by the setters only: assigning a name
  that is empty after trimming, or a registration number that \<open>^\d+$\<close> does not match,
  raises \<open>ValueError\<close> and any other value is stored.
\<close>

theorem C4_construction_unchecked:
  "Mahasiswa_init nama_arg nim_arg counter
     = (\<lparr>id_mhs = counter + 1, nama = nama_arg, nim = nim_arg\<rparr>, counter + 1)
   \<and> (strip nama_arg = [] \<longrightarrow> set_nama nama_arg m = Inl (ValueError ''Nama tidak boleh kosong''))
   \<and> (strip nama_arg \<noteq> [] \<longrightarrow> set_nama nama_arg m = Inr (m\<lparr>nama := nama_arg\<rparr>))
   \<and> (\<not> match_digits nim_arg \<longrightarrow> set_nim nim_arg m = Inl (ValueError ''NIM harus berupa angka''))
   \<and> (match_digits nim_arg \<longrightarrow> set_nim nim_arg m = Inr (m\<lparr>nim := nim_arg\<rparr>))"
  by (simp add: Mahasiswa_init_def Person_init_def set_nama_def set_nim_def)

theorem C4_construction_unchecked_witness:
  "strip ''  '' = [] \<and> \<not> match_digits ''12a''
   \<and> Mahasiswa_init ''  '' ''12a'' 0 = (\<lparr>id_mhs = 1, nama = ''  '', nim = ''12a''\<rparr>, 1)
   \<and> set_nama ''  '' \<lparr>id_mhs = 1, nama = ''Ana'', nim = ''111''\<rparr>
       = Inl (ValueError ''Nama tidak boleh kosong'')
   \<and> set_nim ''12a'' \<lparr>id_mhs = 1, nama = ''Ana'', nim = ''111''\<rparr>
       = Inl (ValueError ''NIM harus berupa angka'')
   \<and> strip ''Ana'' \<noteq> [] \<and> match_digits ''123''
   \<and> set_nama ''Ana'' \<lparr>id_mhs = 1, nama = ''Budi'', nim = ''111''\<rparr>
       = Inr \<lparr>id_mhs = 1, nama = ''Ana'', nim = ''111''\<rparr>
   \<and> set_nim ''123'' \<lparr>id_mhs = 1, nama = ''Budi'', nim = ''111''\<rparr>
       = Inr \<lparr>id_mhs = 1, nama = ''Budi'', nim = ''123''\<rparr>"
proof -
  have a: "strip ''  '' = []" by (simp add: strip_def isspace_def)
  have b: "\<not> match_digits ''12a''" by (simp add: match_digits_def isdigit_def)
  have c: "strip ''Ana'' \<noteq> []" by (simp add: strip_def isspace_def)
  have d: "match_digits ''123''" by (simp add: match_digits_def isdigit_def)
  show ?thesis
    using a b c d
      C4_construction_unchecked [of "''  ''" "''12a''" 0 "\<lparr>id_mhs = 1, nama = ''Ana'', nim = ''111''\<rparr>"]
      C4_construction_unchecked [of "''Ana''" "''123''" 0 "\<lparr>id_mhs = 1, nama = ''Budi'', nim = ''111''\<rparr>"]
    by simp
qed

text \<open>
  The claim as the specification has it fails: with a name that is empty after trimming
  and a registration number that is not all digits, construction still produces a record.
\<close>

theorem C4_construction_counterexample:
  "strip [] = [] \<and> \<not> match_digits ''12a''
   \<and> Mahasiswa_init [] ''12a'' 0 = (\<lparr>id_mhs = 1, nama = [], nim = ''12a''\<rparr>, 1)"
  by (simp add: strip_def match_digits_def isdigit_def Mahasiswa_init_def Person_init_def)

section \<open>Searching\<close>

lemma char_eq_char_of: "(c = char_of (n::nat)) = (take_bit 8 n = of_char c)"
  using char_of_eq_iff [of n c] by auto

lemma lower_char_idem: "lower_char (lower_char c) = lower_char c"
proof -
  define n where "n = (of_char c :: nat)"
  define up where "up = (\<lambda>k::nat. (65 \<le> k \<and> k \<le> 90) \<or> (192 \<le> k \<and> k \<le> 222 \<and> k \<noteq> 215))"
  have lc: "lower_char d = (if up (of_char d) then char_of ((of_char d :: nat) + 32) else d)" for d
    by (simp add: lower_char_def up_def Let_def)
  show ?thesis
  proof (cases "up n")
    case True
    then have b: "n + 32 < 256" and nu: "\<not> up (n + 32)"
      by (auto simp: up_def)
    have o: "(of_char (char_of (n + 32)) :: nat) = n + 32"
      using b by simp
    have "lower_char c = char_of (n + 32)"
      using True by (simp add: lc n_def)
    moreover have "lower_char (char_of (n + 32)) = char_of (n + 32)"
      using nu by (simp only: lc o if_False)
    ultimately show ?thesis by simp
  next
    case False
    then have "lower_char c = c" by (simp add: lc n_def)
    then show ?thesis by simp
  qed
qed

lemma lower_idem: "lower (lower s) = lower s"
  by (simp add: lower_def lower_char_idem)

lemma fold_append_filter:
  "fold (\<lambda>x acc. if P x then acc @ [x] else acc) xs ys = ys @ filter P xs"
  by (induction xs arbitrary: ys) simp_all

lemma key_by_lower: "lower (key_by by_arg m) = lower (if by_arg = ''nama'' then nama m else nim m)"
  by (simp add: key_by_def lower_idem)

text \<open>
  C8. \<open>linear_search\<close> returns the records whose chosen field (the name when \<open>by\<close> is
  \<open>nama\<close>, the registration number otherwise) contains the keyword as a contiguous part,
  both lower-cased, and it returns them in the order of the input. With the empty keyword
  it returns every record.
\<close>

theorem C8_linear_search:
  "linear_search data_arg keyword by_arg
     = filter (\<lambda>m. sublist (lower keyword) (lower (if by_arg = ''nama'' then nama m else nim m)))
         data_arg
   \<and> linear_search data_arg [] by_arg = data_arg"
proof -
  have a: "linear_search xs kw by_arg
     = filter (\<lambda>m. sublist (lower kw) (lower (key_by by_arg m))) xs" for xs kw
    by (simp add: linear_search_def Let_def fold_append_filter)
  show ?thesis
    unfolding a key_by_lower by (simp add: lower_def)
qed

theorem C8_linear_search_witness:
  "linear_search [\<lparr>id_mhs = 1, nama = ''Ana'', nim = ''111''\<rparr>,
                  \<lparr>id_mhs = 2, nama = ''Budi'', nim = ''212''\<rparr>,
                  \<lparr>id_mhs = 3, nama = ''hanA'', nim = ''333''\<rparr>] ''aN'' ''nama''
     = [\<lparr>id_mhs = 1, nama = ''Ana'', nim = ''111''\<rparr>,
        \<lparr>id_mhs = 3, nama = ''hanA'', nim = ''333''\<rparr>]
   \<and> linear_search [\<lparr>id_mhs = 1, nama = ''Ana'', nim = ''111''\<rparr>,
                    \<lparr>id_mhs = 2, nama = ''Budi'', nim = ''212''\<rparr>,
                    \<lparr>id_mhs = 3, nama = ''hanA'', nim = ''333''\<rparr>] ''12'' ''nim''
     = [\<lparr>id_mhs = 2, nama = ''Budi'', nim = ''212''\<rparr>]"
  using C8_linear_search [of "[\<lparr>id_mhs = 1, nama = ''Ana'', nim = ''111''\<rparr>,
                  \<lparr>id_mhs = 2, nama = ''Budi'', nim = ''212''\<rparr>,
                  \<lparr>id_mhs = 3, nama = ''hanA'', nim = ''333''\<rparr>]" "''aN''" "''nama''"]
    C8_linear_search [of "[\<lparr>id_mhs = 1, nama = ''Ana'', nim = ''111''\<rparr>,
                  \<lparr>id_mhs = 2, nama = ''Budi'', nim = ''212''\<rparr>,
                  \<lparr>id_mhs = 3, nama = ''hanA'', nim = ''333''\<rparr>]" "''12''" "''nim''"]
  by (simp add: lower_def lower_char_def char_of_eq_iff char_eq_char_of sublist_code)

lemma binary_search_while_Some:
  "binary_search_while sd k low high = Some r \<Longrightarrow> 0 \<le> low \<Longrightarrow> high < int (length sd)
     \<Longrightarrow> r \<in> set sd \<and> nim r = k"
proof (induction sd k low high rule: binary_search_while.induct)
  case (1 sd k low high)
  let ?mid = "(low + high) div 2"
  from "1.prems"(1) have lh: "low \<le> high"
    by (subst (asm) binary_search_while.simps) (simp split: if_splits)
  with "1.prems" have m: "0 \<le> ?mid" "?mid \<le> high" "low \<le> ?mid" "nat ?mid < length sd"
    by auto
  show ?case
  proof (cases "nim (sd ! nat ?mid) = k")
    case True
    with "1.prems"(1) lh have "r = sd ! nat ?mid"
      by (subst (asm) binary_search_while.simps) (simp add: Let_def)
    with True m(4) show ?thesis by simp
  next
    case False
    show ?thesis
    proof (cases "nim (sd ! nat ?mid) < k")
      case True
      with False "1.prems"(1) lh have "binary_search_while sd k (?mid + 1) high = Some r"
        by (subst (asm) binary_search_while.simps) (simp add: Let_def)
      from "1.IH"(1) [OF lh refl refl False True this] m "1.prems" show ?thesis
        by simp
    next
      case nl: False
      with False "1.prems"(1) lh have "binary_search_while sd k low (?mid - 1) = Some r"
        by (subst (asm) binary_search_while.simps) (simp add: Let_def)
      from "1.IH"(2) [OF lh refl refl False nl this] m "1.prems" show ?thesis
        by simp
    qed
  qed
qed

lemma binary_search_while_None:
  "binary_search_while sd k low high = None \<Longrightarrow> sorted (map nim sd) \<Longrightarrow> 0 \<le> low
     \<Longrightarrow> high < int (length sd) \<Longrightarrow> low \<le> i \<Longrightarrow> i \<le> high \<Longrightarrow> nim (sd ! nat i) \<noteq> k"
proof (induction sd k low high rule: binary_search_while.induct)
  case (1 sd k low high)
  let ?mid = "(low + high) div 2"
  from "1.prems" have lh: "low \<le> high" by simp
  with "1.prems" have m: "0 \<le> ?mid" "?mid \<le> high" "low \<le> ?mid" "nat ?mid < length sd"
    by auto
  have mono: "nim (sd ! a) \<le> nim (sd ! b)" if "a \<le> b" "b < length sd" for a b
    using "1.prems"(2) that by (simp add: sorted_iff_nth_mono)
  from "1.prems"(1) lh have ne: "nim (sd ! nat ?mid) \<noteq> k"
    by (subst (asm) binary_search_while.simps) (simp add: Let_def split: if_splits)
  show ?case
  proof (cases "nim (sd ! nat ?mid) < k")
    case True
    with ne "1.prems"(1) lh have r: "binary_search_while sd k (?mid + 1) high = None"
      by (subst (asm) binary_search_while.simps) (simp add: Let_def)
    show ?thesis
    proof (cases "i \<le> ?mid")
      case le: True
      with "1.prems" m have "nim (sd ! nat i) \<le> nim (sd ! nat ?mid)"
        by (intro mono) auto
      with True show ?thesis by auto
    next
      case False
      with "1.IH"(1) [OF lh refl refl ne True r "1.prems"(2)] m "1.prems" show ?thesis
        by simp
    qed
  next
    case nl: False
    with ne "1.prems"(1) lh have r: "binary_search_while sd k low (?mid - 1) = None"
      by (subst (asm) binary_search_while.simps) (simp add: Let_def)
    show ?thesis
    proof (cases "?mid \<le> i")
      case ge: True
      with "1.prems" m have "nim (sd ! nat ?mid) \<le> nim (sd ! nat i)"
        by (intro mono) auto
      with nl ne show ?thesis by auto
    next
      case False
      with "1.IH"(2) [OF lh refl refl ne nl r "1.prems"(2)] m "1.prems" show ?thesis
        by simp
    qed
  qed
qed

lemma binary_search_Some:
  "binary_search xs k = Some r \<Longrightarrow> r \<in> set xs \<and> nim r = k"
  using binary_search_while_Some [of "sort_key nim xs" k 0 "int (length (sort_key nim xs)) - 1" r]
  by (simp add: binary_search_def Let_def)

lemma binary_search_None:
  assumes "binary_search xs k = None" and "m \<in> set xs"
  shows "nim m \<noteq> k"
proof -
  let ?sd = "sort_key nim xs"
  from assms(2) have "m \<in> set ?sd" by simp
  then have "\<exists>i<length ?sd. ?sd ! i = m"
    by (simp only: in_set_conv_nth)
  then obtain i where i: "i < length ?sd" "?sd ! i = m"
    by blast
  from assms(1) have n: "binary_search_while ?sd k 0 (int (length ?sd) - 1) = None"
    by (simp add: binary_search_def Let_def)
  have s: "sorted (map nim ?sd)" by (rule sorted_sort_key)
  from binary_search_while_None [OF n s, of "int i"] i show ?thesis
    by simp
qed

lemma binary_search_found_iff:
  "(\<exists>r. binary_search xs k = Some r) = (\<exists>m \<in> set xs. nim m = k)"
proof
  assume "\<exists>r. binary_search xs k = Some r"
  then show "\<exists>m \<in> set xs. nim m = k"
    using binary_search_Some by blast
next
  assume "\<exists>m \<in> set xs. nim m = k"
  then obtain m where m: "m \<in> set xs" "nim m = k" by blast
  show "\<exists>r. binary_search xs k = Some r"
  proof (cases "binary_search xs k")
    case None
    from binary_search_None [OF None m(1)] m(2) show ?thesis by simp
  next
    case (Some r)
    then show ?thesis by blast
  qed
qed


text \<open>
  C5. \<open>binary_search\<close> returns a record exactly when some record of the list has the
  searched registration number, and the record it returns is one of the list with that
  very registration number (a record whose number only contains the searched string is
  never returned). It returns nothing exactly when no record has that number, so whether
  something is found is the same for every permutation of the list.
\<close>

theorem C5_binary_search:
  "(binary_search data_arg nim_arg = Some r \<longrightarrow> nim r = nim_arg \<and> r \<in> set data_arg)
   \<and> ((\<exists>found. binary_search data_arg nim_arg = Some found)
        = (\<exists>m \<in> set data_arg. nim m = nim_arg))
   \<and> ((binary_search data_arg nim_arg = None) = (\<forall>m \<in> set data_arg. nim m \<noteq> nim_arg))
   \<and> (mset permuted = mset data_arg \<longrightarrow>
        (binary_search permuted nim_arg = None) = (binary_search data_arg nim_arg = None))"
proof -
  have none: "(binary_search xs nim_arg = None) = (\<forall>m \<in> set xs. nim m \<noteq> nim_arg)" for xs
    using binary_search_found_iff [of xs nim_arg] by auto
  have perm: "(binary_search permuted nim_arg = None) = (binary_search data_arg nim_arg = None)"
    if "mset permuted = mset data_arg"
  proof -
    from that have "set permuted = set data_arg" by (rule mset_eq_setD)
    then show ?thesis by (simp add: none)
  qed
  show ?thesis
    using binary_search_Some [of data_arg nim_arg r] binary_search_found_iff [of data_arg nim_arg]
      none [of data_arg] perm
    by blast
qed

theorem C5_binary_search_witness:
  "binary_search [\<lparr>id_mhs = 1, nama = ''Cici'', nim = ''30''\<rparr>,
                  \<lparr>id_mhs = 2, nama = ''Ana'', nim = ''205''\<rparr>,
                  \<lparr>id_mhs = 3, nama = ''Budi'', nim = ''10''\<rparr>] ''205''
     = Some \<lparr>id_mhs = 2, nama = ''Ana'', nim = ''205''\<rparr>
   \<and> mset [\<lparr>id_mhs = 3, nama = ''Budi'', nim = ''10''\<rparr>,
            \<lparr>id_mhs = 1, nama = ''Cici'', nim = ''30''\<rparr>,
            \<lparr>id_mhs = 2, nama = ''Ana'', nim = ''205''\<rparr>]
     = mset [\<lparr>id_mhs = 1, nama = ''Cici'', nim = ''30''\<rparr>,
             \<lparr>id_mhs = 2, nama = ''Ana'', nim = ''205''\<rparr>,
             \<lparr>id_mhs = 3, nama = ''Budi'', nim = ''10''\<rparr>]
   \<and> binary_search [\<lparr>id_mhs = 1, nama = ''Cici'', nim = ''30''\<rparr>,
                    \<lparr>id_mhs = 2, nama = ''Ana'', nim = ''205''\<rparr>,
                    \<lparr>id_mhs = 3, nama = ''Budi'', nim = ''10''\<rparr>] ''20'' = None
   \<and> binary_search [\<lparr>id_mhs = 3, nama = ''Budi'', nim = ''10''\<rparr>,
                    \<lparr>id_mhs = 1, nama = ''Cici'', nim = ''30''\<rparr>,
                    \<lparr>id_mhs = 2, nama = ''Ana'', nim = ''205''\<rparr>] ''20'' = None"
proof -
  let ?c = "\<lparr>id_mhs = 1, nama = ''Cici'', nim = ''30''\<rparr>"
  let ?a = "\<lparr>id_mhs = 2, nama = ''Ana'', nim = ''205''\<rparr>"
  let ?b = "\<lparr>id_mhs = 3, nama = ''Budi'', nim = ''10''\<rparr>"
  have srt: "sort_key nim [?c, ?a, ?b] = [?b, ?a, ?c]"
    by simp
  have found: "binary_search [?c, ?a, ?b] ''205'' = Some ?a"
    unfolding binary_search_def srt Let_def
    by (simp add: binary_search_while.simps)
  have perm: "mset [?b, ?c, ?a] = mset [?c, ?a, ?b]"
    by simp
  have absent: "\<forall>m \<in> set [?c, ?a, ?b]. nim m \<noteq> ''20''"
    by simp
  note t = C5_binary_search [of "[?c, ?a, ?b]" "''20''" ?a "[?b, ?c, ?a]"]
  from t absent have n1: "binary_search [?c, ?a, ?b] ''20'' = None"
    by blast
  from t perm n1 have n2: "binary_search [?b, ?c, ?a] ''20'' = None"
    by blast
  from C5_binary_search [of "[?c, ?a, ?b]" "''205''" ?a "[?b, ?c, ?a]"] found
  have "nim ?a = ''205'' \<and> ?a \<in> set [?c, ?a, ?b]"
    by blast
  with found perm n1 n2 show ?thesis
    by blast
qed

section \<open>Sorting\<close>

lemma fold_upt_invariant:
  assumes "P a x"
    and "\<And>k y. a \<le> k \<Longrightarrow> k < b \<Longrightarrow> P k y \<Longrightarrow> P (Suc k) (g k y)"
    and "a \<le> b"
  shows "P b (fold g [a..<b] x)"
  using assms(3,2)
proof (induction b)
  case 0
  with assms(1) show ?case by simp
next
  case (Suc b)
  show ?case
  proof (cases "a = Suc b")
    case True
    with assms(1) show ?thesis by simp
  next
    case False
    with Suc.prems(1) have ab: "a \<le> b" by simp
    have "P b (fold g [a..<b] x)"
      using ab Suc.prems(2) by (intro Suc.IH) simp_all
    then have "P (Suc b) (g b (fold g [a..<b] x))"
      using ab by (intro Suc.prems(2)) simp_all
    with ab show ?thesis by simp
  qed
qed

lemma sorted_map_nth:
  "sorted (map f xs) = (\<forall>i j. i \<le> j \<longrightarrow> j < length xs \<longrightarrow> f (xs ! i) \<le> f (xs ! j))"
  by (auto simp: sorted_iff_nth_mono)

subsection \<open>merge\_sort\<close>

lemma merge_out_step:
  "merge_out by_arg left right i j result =
     (if i < length left \<and> j < length right then
        (if key_by by_arg (left ! i) \<le> key_by by_arg (right ! j)
         then merge_out by_arg left right (i + 1) j (result @ [left ! i])
         else merge_out by_arg left right i (j + 1) (result @ [right ! j]))
      else result @ drop i left @ drop j right)"
  unfolding merge_out_def
  by (subst merge_while.simps) (simp add: Let_def)

lemma mset_merge_out:
  "mset (merge_out by_arg left right i j result)
     = mset result + mset (drop i left) + mset (drop j right)"
proof (induction by_arg left right i j result rule: merge_while.induct)
  case (1 by_arg left right i j result)
  show ?case
  proof (cases "i < length left \<and> j < length right")
    case False
    have "merge_out by_arg left right i j result = result @ drop i left @ drop j right"
      by (subst merge_out_step) (simp only: False if_False)
    then show ?thesis by simp
  next
    case True
    then have dl: "drop i left = left ! i # drop (Suc i) left"
      and dr: "drop j right = right ! j # drop (Suc j) right"
      by (simp_all add: Cons_nth_drop_Suc)
    show ?thesis
    proof (cases "key_by by_arg (left ! i) \<le> key_by by_arg (right ! j)")
      case le: True
      have "mset (merge_out by_arg left right (i + 1) j (result @ [left ! i]))
          = mset (result @ [left ! i]) + mset (drop (i + 1) left) + mset (drop j right)"
        using True le by (intro "1.IH"(1)) simp_all
      with True le show ?thesis
        by (subst merge_out_step) (simp add: dl)
    next
      case gt: False
      have "mset (merge_out by_arg left right i (j + 1) (result @ [right ! j]))
          = mset (result @ [right ! j]) + mset (drop i left) + mset (drop (j + 1) right)"
        using True gt by (intro "1.IH"(2)) simp_all
      with True gt show ?thesis
        by (subst merge_out_step) (simp add: dr)
    qed
  qed
qed

lemma sorted_merge_out:
  "sorted (map (key_by by_arg) (result @ drop i left)) \<Longrightarrow>
   sorted (map (key_by by_arg) (result @ drop j right)) \<Longrightarrow>
   sorted (map (key_by by_arg) (merge_out by_arg left right i j result))"
proof (induction by_arg left right i j result rule: merge_while.induct)
  case (1 by_arg left right i j result)
  let ?f = "key_by by_arg"
  show ?case
  proof (cases "i < length left \<and> j < length right")
    case False
    then have d: "drop i left = [] \<or> drop j right = []" by auto
    have "merge_out by_arg left right i j result = result @ drop i left @ drop j right"
      by (subst merge_out_step) (simp only: False if_False)
    with d "1.prems" show ?thesis by auto
  next
    case True
    then have dl: "drop i left = left ! i # drop (Suc i) left"
      and dr: "drop j right = right ! j # drop (Suc j) right"
      by (simp_all add: Cons_nth_drop_Suc)
    show ?thesis
    proof (cases "?f (left ! i) \<le> ?f (right ! j)")
      case le: True
      have a: "sorted (map ?f ((result @ [left ! i]) @ drop (i + 1) left))"
        using "1.prems"(1) by (simp add: dl)
      have b: "sorted (map ?f ((result @ [left ! i]) @ drop j right))"
        using "1.prems" le by (simp add: dl dr sorted_append) fastforce
      have "sorted (map ?f (merge_out by_arg left right (i + 1) j (result @ [left ! i])))"
        using True le a b by (intro "1.IH"(1)) simp_all
      with True le show ?thesis
        by (subst merge_out_step) simp
    next
      case gt: False
      then have lt: "?f (right ! j) \<le> ?f (left ! i)" by simp
      have a: "sorted (map ?f ((result @ [right ! j]) @ drop (j + 1) right))"
        using "1.prems"(2) by (simp add: dr)
      have b: "sorted (map ?f ((result @ [right ! j]) @ drop i left))"
        using "1.prems" lt by (simp add: dl dr sorted_append) fastforce
      have "sorted (map ?f (merge_out by_arg left right i (j + 1) (result @ [right ! j])))"
        using True gt b a by (intro "1.IH"(2)) simp_all
      with True gt show ?thesis
        by (subst merge_out_step) simp
    qed
  qed
qed

lemma merge_lists_out: "merge_lists left right by_arg = merge_out by_arg left right 0 0 []"
  by (simp add: merge_lists_def merge_out_def)

lemma mset_merge_lists: "mset (merge_lists left right by_arg) = mset left + mset right"
  by (simp add: merge_lists_out mset_merge_out)

lemma sorted_merge_lists:
  "sorted (map (key_by by_arg) left) \<Longrightarrow> sorted (map (key_by by_arg) right)
     \<Longrightarrow> sorted (map (key_by by_arg) (merge_lists left right by_arg))"
  unfolding merge_lists_out by (rule sorted_merge_out) simp_all

lemma mset_merge_sort: "mset (merge_sort xs by_arg) = mset xs"
proof (induction xs by_arg rule: merge_sort.induct)
  case (1 xs by_arg)
  show ?case
  proof (cases "length xs \<le> 1")
    case True
    then show ?thesis by (subst merge_sort.simps) simp
  next
    case False
    have "mset (take (length xs div 2) xs) + mset (drop (length xs div 2) xs) = mset xs"
      by (simp flip: mset_append)
    with False "1.IH" show ?thesis
      by (subst merge_sort.simps) (simp add: mset_merge_lists)
  qed
qed

lemma sorted_merge_sort: "sorted (map (key_by by_arg) (merge_sort xs by_arg))"
proof (induction xs by_arg rule: merge_sort.induct)
  case (1 xs by_arg)
  show ?case
  proof (cases "length xs \<le> 1")
    case True
    then have "xs = [] \<or> (\<exists>x. xs = [x])"
      by (cases xs) auto
    with True show ?thesis by (subst merge_sort.simps) auto
  next
    case False
    with "1.IH" show ?thesis
      by (subst merge_sort.simps) (simp add: sorted_merge_lists)
  qed
qed

subsection \<open>selection\_sort\<close>

lemma selection_min_props:
  assumes "i < n"
  shows "i \<le> selection_min by_arg xs i n \<and> selection_min by_arg xs i n < n
    \<and> (\<forall>l. i \<le> l \<and> l < n \<longrightarrow>
          key_by by_arg (xs ! selection_min by_arg xs i n) \<le> key_by by_arg (xs ! l))"
proof -
  let ?f = "key_by by_arg"
  let ?P = "\<lambda>k m. i \<le> m \<and> m < k \<and> (\<forall>l. i \<le> l \<and> l < k \<longrightarrow> ?f (xs ! m) \<le> ?f (xs ! l))"
  let ?g = "\<lambda>j min_idx. let a = ?f (xs ! min_idx); b = ?f (xs ! j) in if a > b then j else min_idx"
  have base: "?P (i + 1) i"
    by (auto simp: less_Suc_eq_le)
  have step: "?P (Suc k) (?g k m)" if "i + 1 \<le> k" "k < n" "?P k m" for k m
  proof (cases "?f (xs ! m) > ?f (xs ! k)")
    case True
    have "?f (xs ! k) \<le> ?f (xs ! l)" if "i \<le> l" "l < Suc k" for l
    proof (cases "l = k")
      case True
      then show ?thesis by simp
    next
      case False
      with that have "l < k" by simp
      with \<open>?P k m\<close> that(1) have "?f (xs ! m) \<le> ?f (xs ! l)" by blast
      with True show ?thesis by simp
    qed
    with True that(1) show ?thesis by (simp add: Let_def)
  next
    case False
    have "?f (xs ! m) \<le> ?f (xs ! l)" if "i \<le> l" "l < Suc k" for l
    proof (cases "l = k")
      case True
      with False show ?thesis by simp
    next
      case nk: False
      with that have "l < k" by simp
      with \<open>?P k m\<close> that(1) show ?thesis by blast
    qed
    with False that(3) show ?thesis by (simp add: Let_def less_Suc_eq)
  qed
  have "?P n (fold ?g [i + 1..<n] i)"
    using base step assms by (intro fold_upt_invariant [where P = ?P]) simp_all
  then show ?thesis
    by (simp add: selection_min_def)
qed

lemma selection_min_sorted:
  assumes "\<forall>l. i \<le> l \<and> l < n \<longrightarrow> key_by by_arg (xs ! i) \<le> key_by by_arg (xs ! l)"
    and "i < n"
  shows "selection_min by_arg xs i n = i"
proof -
  let ?f = "key_by by_arg"
  let ?g = "\<lambda>j min_idx. let a = ?f (xs ! min_idx); b = ?f (xs ! j) in if a > b then j else min_idx"
  have step: "?g k m = i" if "i + 1 \<le> k" "k < n" "m = i" for k m
  proof -
    from assms(1) that have "?f (xs ! i) \<le> ?f (xs ! k)" by simp
    then have "\<not> ?f (xs ! k) < ?f (xs ! i)" by (simp add: not_less)
    with that(3) show ?thesis by (simp add: Let_def)
  qed
  have "(\<lambda>k m. m = i) n (fold ?g [i + 1..<n] i)"
    using step assms(2) by (intro fold_upt_invariant [where P = "\<lambda>k m. m = i"]) simp_all
  then show ?thesis
    by (simp add: selection_min_def)
qed

lemma selection_step_inv:
  assumes inv: "selection_inv by_arg data_arg i ys" and i: "i < length data_arg"
  shows "selection_inv by_arg data_arg (Suc i) (selection_step by_arg (length data_arg) i ys)"
proof -
  let ?f = "key_by by_arg"
  let ?n = "length data_arg"
  let ?m = "selection_min by_arg ys i ?n"
  let ?zs = "ys[i := ys ! ?m, ?m := ys ! i]"
  from inv have len: "length ys = ?n" and ms: "mset ys = mset data_arg"
    and ord: "\<And>a b. a < i \<Longrightarrow> a \<le> b \<Longrightarrow> b < ?n \<Longrightarrow> ?f (ys ! a) \<le> ?f (ys ! b)"
    by (simp_all add: selection_inv_def)
  from selection_min_props [OF i, of by_arg ys]
  have m: "i \<le> ?m" "?m < ?n" and least: "\<And>l. i \<le> l \<Longrightarrow> l < ?n \<Longrightarrow> ?f (ys ! ?m) \<le> ?f (ys ! l)"
    by simp_all
  have z: "\<exists>c. ?zs ! b = ys ! c \<and> c < ?n \<and> (i \<le> b \<longrightarrow> i \<le> c) \<and> (b < i \<longrightarrow> c = b)"
    if "b < ?n" for b
  proof -
    consider "b = ?m" | "b \<noteq> ?m" "b = i" | "b \<noteq> ?m" "b \<noteq> i" by blast
    then show ?thesis
    proof cases
      case 1
      with m i len have "?zs ! b = ys ! i" by simp
      with 1 m i show ?thesis by auto
    next
      case 2
      with m i len have "?zs ! b = ys ! ?m" by simp
      with 2 m show ?thesis by auto
    next
      case 3
      with len that have "?zs ! b = ys ! b" by simp
      with that show ?thesis by auto
    qed
  qed
  have zi: "?zs ! i = ys ! ?m"
    using m i len by (cases "i = ?m") simp_all
  have ord': "?f (?zs ! a) \<le> ?f (?zs ! b)" if "a < Suc i" "a \<le> b" "b < ?n" for a b
  proof -
    from z [OF that(3)] obtain c where c: "?zs ! b = ys ! c" "c < ?n" "i \<le> b \<longrightarrow> i \<le> c" "b < i \<longrightarrow> c = b"
      by blast
    show ?thesis
    proof (cases "a = i")
      case True
      with that c have "i \<le> c" by simp
      from least [OF this c(2)] True zi c(1) show ?thesis by simp
    next
      case False
      with that have ai: "a < i" by simp
      with i have "a < ?n" by simp
      from z [OF this] ai have za: "?zs ! a = ys ! a" by auto
      have "a \<le> c"
      proof (cases "b < i")
        case True
        with c that show ?thesis by simp
      next
        case False
        with c ai show ?thesis by simp
      qed
      from ord [OF ai this c(2)] za c(1) show ?thesis by simp
    qed
  qed
  have "mset ?zs = mset ys"
    using m i len by (intro mset_swap) simp_all
  with ms len ord' show ?thesis
    by (simp add: selection_inv_def selection_step_def Let_def)
qed

lemma selection_sort_inv:
  "selection_inv by_arg data_arg (length data_arg) (selection_sort data_arg by_arg)"
proof -
  have "selection_inv by_arg data_arg (length data_arg)
      (fold (selection_step by_arg (length data_arg)) [0..<length data_arg] data_arg)"
  proof (rule fold_upt_invariant [where P = "selection_inv by_arg data_arg"])
    show "selection_inv by_arg data_arg 0 data_arg"
      by (simp add: selection_inv_def)
  next
    fix k y
    assume "k < length data_arg" "selection_inv by_arg data_arg k y"
    then show "selection_inv by_arg data_arg (Suc k) (selection_step by_arg (length data_arg) k y)"
      by (intro selection_step_inv)
  qed simp
  then show ?thesis
    by (simp add: selection_sort_def Let_def)
qed

lemma mset_selection_sort: "mset (selection_sort data_arg by_arg) = mset data_arg"
  using selection_sort_inv [of by_arg data_arg] by (simp add: selection_inv_def)

lemma sorted_selection_sort: "sorted (map (key_by by_arg) (selection_sort data_arg by_arg))"
  using selection_sort_inv [of by_arg data_arg]
  by (simp add: selection_inv_def sorted_map_nth)

lemma selection_sort_sorted_input:
  assumes "sorted (map (key_by by_arg) data_arg)"
  shows "selection_sort data_arg by_arg = data_arg"
proof -
  let ?n = "length data_arg"
  have step: "selection_step by_arg ?n k data_arg = data_arg" if "k < ?n" for k
  proof -
    have "\<forall>l. k \<le> l \<and> l < ?n \<longrightarrow> key_by by_arg (data_arg ! k) \<le> key_by by_arg (data_arg ! l)"
      using assms by (simp add: sorted_map_nth)
    from selection_min_sorted [OF this that] show ?thesis
      by (simp add: selection_step_def Let_def)
  qed
  have "(\<lambda>k ys. ys = data_arg) ?n (fold (selection_step by_arg ?n) [0..<?n] data_arg)"
    using step by (intro fold_upt_invariant [where P = "\<lambda>k ys. ys = data_arg"]) simp_all
  then show ?thesis
    by (simp add: selection_sort_def Let_def)
qed

text \<open>
  C2 (as amended). \<open>selection_sort\<close> is not stable on every input: the swap that brings the
  minimum to the front moves the displaced record behind later records with an equal
  key. On an input that is already ordered by the chosen key it returns the input
  unchanged, so there the records with equal keys keep their relative order.
\<close>

theorem C2_selection_sort_sorted_input:
  "sorted (map (key_by by_arg) data_arg) \<Longrightarrow>
     selection_sort data_arg by_arg = data_arg
   \<and> records_with_key by_arg k (selection_sort data_arg by_arg)
       = records_with_key by_arg k data_arg"
  by (simp add: selection_sort_sorted_input)

theorem C2_selection_sort_sorted_input_witness:
  "sorted (map (key_by ''nim'') [\<lparr>id_mhs = 3, nama = ''Ana'', nim = ''1''\<rparr>,
                                  \<lparr>id_mhs = 1, nama = ''Budi'', nim = ''2''\<rparr>,
                                  \<lparr>id_mhs = 2, nama = ''Bima'', nim = ''2''\<rparr>])
   \<and> selection_sort [\<lparr>id_mhs = 3, nama = ''Ana'', nim = ''1''\<rparr>,
                     \<lparr>id_mhs = 1, nama = ''Budi'', nim = ''2''\<rparr>,
                     \<lparr>id_mhs = 2, nama = ''Bima'', nim = ''2''\<rparr>] ''nim''
     = [\<lparr>id_mhs = 3, nama = ''Ana'', nim = ''1''\<rparr>,
        \<lparr>id_mhs = 1, nama = ''Budi'', nim = ''2''\<rparr>,
        \<lparr>id_mhs = 2, nama = ''Bima'', nim = ''2''\<rparr>]"
proof -
  have s: "sorted (map (key_by ''nim'') [\<lparr>id_mhs = 3, nama = ''Ana'', nim = ''1''\<rparr>,
                                  \<lparr>id_mhs = 1, nama = ''Budi'', nim = ''2''\<rparr>,
                                  \<lparr>id_mhs = 2, nama = ''Bima'', nim = ''2''\<rparr>])"
    by (simp add: key_by_def)
  from s C2_selection_sort_sorted_input [OF s, of "''2''"] show ?thesis
    by blast
qed

text \<open>
  The claim as the specification has it fails. Sorting three records by registration
  number, the first two with the same number, puts the second in front of the first; and
  sorting by name does the same to two records whose names are equal without case.
\<close>

theorem C2_selection_sort_unstable_counterexample:
  "selection_sort [\<lparr>id_mhs = 1, nama = ''Budi'', nim = ''2''\<rparr>,
                   \<lparr>id_mhs = 2, nama = ''Bima'', nim = ''2''\<rparr>,
                   \<lparr>id_mhs = 3, nama = ''Ana'', nim = ''1''\<rparr>] ''nim''
     = [\<lparr>id_mhs = 3, nama = ''Ana'', nim = ''1''\<rparr>,
        \<lparr>id_mhs = 2, nama = ''Bima'', nim = ''2''\<rparr>,
        \<lparr>id_mhs = 1, nama = ''Budi'', nim = ''2''\<rparr>]
   \<and> records_with_key ''nim'' ''2''
        (selection_sort [\<lparr>id_mhs = 1, nama = ''Budi'', nim = ''2''\<rparr>,
                         \<lparr>id_mhs = 2, nama = ''Bima'', nim = ''2''\<rparr>,
                         \<lparr>id_mhs = 3, nama = ''Ana'', nim = ''1''\<rparr>] ''nim'')
     \<noteq> records_with_key ''nim'' ''2''
          [\<lparr>id_mhs = 1, nama = ''Budi'', nim = ''2''\<rparr>,
           \<lparr>id_mhs = 2, nama = ''Bima'', nim = ''2''\<rparr>,
           \<lparr>id_mhs = 3, nama = ''Ana'', nim = ''1''\<rparr>]
   \<and> selection_sort [\<lparr>id_mhs = 1, nama = ''Budi'', nim = ''21''\<rparr>,
                     \<lparr>id_mhs = 2, nama = ''budi'', nim = ''22''\<rparr>,
                     \<lparr>id_mhs = 3, nama = ''Ana'', nim = ''23''\<rparr>] ''nama''
     = [\<lparr>id_mhs = 3, nama = ''Ana'', nim = ''23''\<rparr>,
        \<lparr>id_mhs = 2, nama = ''budi'', nim = ''22''\<rparr>,
        \<lparr>id_mhs = 1, nama = ''Budi'', nim = ''21''\<rparr>]"
proof -
  let ?r1 = "\<lparr>id_mhs = 1, nama = ''Budi'', nim = ''2''\<rparr>"
  let ?r2 = "\<lparr>id_mhs = 2, nama = ''Bima'', nim = ''2''\<rparr>"
  let ?r3 = "\<lparr>id_mhs = 3, nama = ''Ana'', nim = ''1''\<rparr>"
  let ?n = "Suc (Suc (Suc 0))"
  have k: "key_by ''nim'' ?r1 = ''2''" "key_by ''nim'' ?r2 = ''2''" "key_by ''nim'' ?r3 = ''1''"
    by (simp_all add: key_by_def)
  have s0: "selection_step ''nim'' ?n 0 [?r1, ?r2, ?r3] = [?r3, ?r2, ?r1]"
    by (simp add: selection_step_def selection_min_def Let_def k)
  have s1: "selection_step ''nim'' ?n (Suc 0) [?r3, ?r2, ?r1] = [?r3, ?r2, ?r1]"
    by (simp add: selection_step_def selection_min_def Let_def k)
  have s2: "selection_step ''nim'' ?n (Suc (Suc 0)) [?r3, ?r2, ?r1] = [?r3, ?r2, ?r1]"
    by (simp add: selection_step_def selection_min_def Let_def k)
  have a: "selection_sort [?r1, ?r2, ?r3] ''nim'' = [?r3, ?r2, ?r1]"
    by (simp add: selection_sort_def Let_def s0 s1 s2)
  let ?p1 = "\<lparr>id_mhs = 1, nama = ''Budi'', nim = ''21''\<rparr>"
  let ?p2 = "\<lparr>id_mhs = 2, nama = ''budi'', nim = ''22''\<rparr>"
  let ?p3 = "\<lparr>id_mhs = 3, nama = ''Ana'', nim = ''23''\<rparr>"
  have l: "key_by ''nama'' ?p1 = ''budi''" "key_by ''nama'' ?p2 = ''budi''"
      "key_by ''nama'' ?p3 = ''ana''"
    by (simp_all add: key_by_def lower_def lower_char_def char_of_eq_iff char_eq_char_of)
  have t0: "selection_step ''nama'' ?n 0 [?p1, ?p2, ?p3] = [?p3, ?p2, ?p1]"
    by (simp add: selection_step_def selection_min_def Let_def l)
  have t1: "selection_step ''nama'' ?n (Suc 0) [?p3, ?p2, ?p1] = [?p3, ?p2, ?p1]"
    by (simp add: selection_step_def selection_min_def Let_def l)
  have t2: "selection_step ''nama'' ?n (Suc (Suc 0)) [?p3, ?p2, ?p1] = [?p3, ?p2, ?p1]"
    by (simp add: selection_step_def selection_min_def Let_def l)
  have b: "selection_sort [?p1, ?p2, ?p3] ''nama'' = [?p3, ?p2, ?p1]"
    by (simp add: selection_sort_def Let_def t0 t1 t2)
  show ?thesis
    unfolding a b by (simp add: records_with_key_def k)
qed


end
